theory Spec2Isabelle
  imports Main "HOL-Library.Sublist"
begin

section \<open>Strings\<close>

text \<open>
  A Python \<^verbatim>\<open>str\<close> is a sequence of Unicode code points, and \<^verbatim>\<open>find\<close> counts
  code points. A string is therefore a list of code points, each a natural number.
  \<open>u\<close> reads an ASCII literal as such a string.
\<close>

type_synonym ustr = "nat list"

definition u :: "string \<Rightarrow> ustr" where
  "u s = map of_char s"

text \<open>
  \<^verbatim>\<open>str.strip()\<close> removes leading and trailing white space. The code points below are the
  ones for which \<^verbatim>\<open>str.isspace\<close> holds: TAB..CR, FS..US, SPACE, NEL, NBSP, OGHAM SPACE,
  EN QUAD..HAIR SPACE, LINE and PARAGRAPH SEPARATOR, NARROW NBSP, MEDIUM MATHEMATICAL SPACE
  and IDEOGRAPHIC SPACE.
\<close>

definition isspace :: "nat \<Rightarrow> bool" where
  "isspace c \<longleftrightarrow>
     (9 \<le> c \<and> c \<le> 13) \<or> (28 \<le> c \<and> c \<le> 32) \<or> c = 133 \<or> c = 160 \<or> c = 5760 \<or>
     (8192 \<le> c \<and> c \<le> 8202) \<or> c = 8232 \<or> c = 8233 \<or> c = 8239 \<or> c = 8287 \<or> c = 12288"

definition strip :: "ustr \<Rightarrow> ustr" where
  "strip s = rev (dropWhile isspace (rev (dropWhile isspace s)))"

text \<open>
  \<^verbatim>\<open>str.lower()\<close>. The mapping is written out for the ASCII letters; every other code
  point is left as it is. Python also maps the cased letters outside ASCII. The general
  theorems below use of \<open>lower\<close> only that it keeps a leading \<open>/\<close> and the trigger
  phrases, which are caseless; the examples are ASCII.
\<close>

definition lower_cp :: "nat \<Rightarrow> nat" where
  "lower_cp c = (if 65 \<le> c \<and> c \<le> 90 then c + 32 else c)"

definition lower :: "ustr \<Rightarrow> ustr" where
  "lower s = map lower_cp s"

text \<open>\<^verbatim>\<open>s.startswith(p)\<close> is \<^term>\<open>prefix p s\<close>.\<close>

text \<open>
  \<^verbatim>\<open>s.find(sub)\<close>: the lowest index at which \<open>sub\<close> occurs in \<open>s\<close>, or \<open>-1\<close>.
  \<open>find_at\<close> scans from the left, \<open>i\<close> being the index of the current position.
\<close>

fun find_at :: "'a list \<Rightarrow> 'a list \<Rightarrow> int \<Rightarrow> int" where
  "find_at sub [] i = (if sub = [] then i else - 1)"
| "find_at sub (c # cs) i = (if prefix sub (c # cs) then i else find_at sub cs (i + 1))"

definition py_find :: "'a list \<Rightarrow> 'a list \<Rightarrow> int" where
  "py_find s sub = find_at sub s 0"

text \<open>\<^verbatim>\<open>sub in s\<close>.\<close>

fun contains :: "'a list \<Rightarrow> 'a list \<Rightarrow> bool" where
  "contains [] sub = (sub = [])"
| "contains (c # cs) sub = (prefix sub (c # cs) \<or> contains cs sub)"

section \<open>Message segments and events\<close>

text \<open>
  The host's message chain is a list of components. The plugin tells \<^verbatim>\<open>Comp.Plain\<close> and
  \<^verbatim>\<open>Comp.At\<close> from everything else. \<open>At\<close> carries \<^verbatim>\<open>str(seg.qq)\<close>.
\<close>

datatype seg = Plain ustr | At ustr | Other

text \<open>
  What the handlers read of an event: \<^verbatim>\<open>get_messages()\<close> (the same list as
  \<^verbatim>\<open>message_obj.message\<close>), \<^verbatim>\<open>message_str\<close> and \<^verbatim>\<open>get_group_id()\<close>; the last two may
  be \<^verbatim>\<open>None\<close>.
\<close>

record event =
  get_messages :: "seg list"
  message_str :: "ustr option"
  get_group_id :: "ustr option"

text \<open>\<^verbatim>\<open>x or ""\<close> for an optional string.\<close>

definition or_empty :: "ustr option \<Rightarrow> ustr" where
  "or_empty x = (case x of None \<Rightarrow> [] | Some s \<Rightarrow> s)"

text \<open>
  The pattern \<^verbatim>\<open>\[CQ:at,[^\]]+\]\<close> at the start of a string: the literal \<^verbatim>\<open>[CQ:at,\<close>, the
  longest run of characters other than \<^verbatim>\<open>]\<close>, which must not be empty, and a closing
  \<^verbatim>\<open>]\<close>. The result is what follows the match.
\<close>

definition at_cq_match :: "ustr \<Rightarrow> ustr option" where
  "at_cq_match s =
     (if prefix (u ''[CQ:at,'') s then
        (let body = drop 7 s;
             run = takeWhile (\<lambda>c. c \<noteq> 93) body;
             rest = dropWhile (\<lambda>c. c \<noteq> 93) body
         in if run \<noteq> [] \<and> rest \<noteq> [] then Some (tl rest) else None)
      else None)"

text \<open>
  \<^verbatim>\<open>_AT_CQ.sub("", raw)\<close>: every match, found from left to right, is removed. A match
  is never empty, so the search goes on in a shorter string.
\<close>

function at_cq_sub :: "ustr \<Rightarrow> ustr" where
  "at_cq_sub [] = []"
| "at_cq_sub (c # cs) =
     (case at_cq_match (c # cs) of
        Some rest \<Rightarrow> at_cq_sub rest
      | None \<Rightarrow> c # at_cq_sub cs)"
  by pat_completeness auto
termination
proof (relation "measure length")
  fix c :: nat and cs rest :: ustr
  assume "at_cq_match (c # cs) = Some rest"
  then obtain d where d: "d = dropWhile (\<lambda>c. c \<noteq> 93) (drop 7 (c # cs))" "d \<noteq> []" "rest = tl d"
    by (auto simp: at_cq_match_def Let_def split: if_splits)
  have "length d \<le> length (drop 7 (c # cs))"
    unfolding d(1) by (rule length_dropWhile_le)
  with d(2,3) have "length rest < length (c # cs)"
    by (cases d) auto
  then show "(rest, c # cs) \<in> measure length" by simp
qed auto

fun plain_texts :: "seg list \<Rightarrow> ustr list" where
  "plain_texts [] = []"
| "plain_texts (Plain t # segs) = t # plain_texts segs"
| "plain_texts (_ # segs) = plain_texts segs"

definition strip_at :: "event \<Rightarrow> ustr" where
  "strip_at ev =
     (let parts = plain_texts (get_messages ev)
      in if parts \<noteq> [] then strip (concat parts)
         else strip (at_cq_sub (or_empty (message_str ev))))"

definition norm_str :: "ustr \<Rightarrow> ustr" where
  "norm_str s = strip s"

section \<open>The member store\<close>

text \<open>
  A member record is a JSON object; each of its three keys may be missing, which is what
  \<^verbatim>\<open>rec.get(key)\<close> reports as \<^verbatim>\<open>None\<close>.
\<close>

record member =
  nickname :: "ustr list option"
  sid :: "ustr option"
  group_id :: "ustr option"

text \<open>\<^verbatim>\<open>rec.get("nickname", [])\<close>.\<close>

definition get_nickname :: "member \<Rightarrow> ustr list" where
  "get_nickname m = (case nickname m of None \<Rightarrow> [] | Some ns \<Rightarrow> ns)"

definition find_by_sid_group :: "ustr \<Rightarrow> ustr \<Rightarrow> member list \<Rightarrow> member option" where
  "find_by_sid_group s g ms = find (\<lambda>m. sid m = Some s \<and> group_id m = Some g) ms"

text \<open>
  \<^verbatim>\<open>_find_all_by_nickname\<close> returns references to the records inside \<^verbatim>\<open>_members\<close>, which
  the caller then mutates. The model returns their positions in the list, so that the
  mutation is a list update at that position.
\<close>

definition nick_hit :: "ustr \<Rightarrow> ustr option \<Rightarrow> member \<Rightarrow> bool" where
  "nick_hit nick g m \<longleftrightarrow>
     (g = None \<or> group_id m = g) \<and> list_ex (\<lambda>x. nick = norm_str x) (get_nickname m)"

definition find_all_by_nickname :: "ustr \<Rightarrow> ustr option \<Rightarrow> member list \<Rightarrow> nat list" where
  "find_all_by_nickname nick g ms = filter (\<lambda>i. nick_hit nick g (ms ! i)) [0..<length ms]"

fun first_at_sid :: "seg list \<Rightarrow> ustr option" where
  "first_at_sid [] = None"
| "first_at_sid (At q # segs) = Some q"
| "first_at_sid (_ # segs) = first_at_sid segs"

section \<open>Command handlers\<close>

text \<open>
  The replies of the handlers, one constructor per message text: "group chat only", "an
  \<open>@\<close> of one member is needed", "invalid nickname", "recorded: nickname -> sid", "nickname
  removed (records affected: n)" and "not found".
\<close>

datatype reply =
  GroupOnly | NeedAt | InvalidNick | Recorded ustr ustr | RemovedNick ustr nat | NotFound

text \<open>
  Lines 135 to 142 of \<^verbatim>\<open>cmd_member\<close>. The record found by \<^verbatim>\<open>_find_by_sid_group\<close> is the
  first one of the list with that \<open>sid\<close> and group; it is mutated in place.
  \<^verbatim>\<open>setdefault\<close> stores an empty list under a missing \<^verbatim>\<open>nickname\<close> key.
\<close>

definition add_nick :: "ustr \<Rightarrow> member \<Rightarrow> member" where
  "add_nick n m =
     (let nicks = get_nickname m
      in if list_all (\<lambda>x. norm_str x \<noteq> n) nicks then m\<lparr>nickname := Some (nicks @ [n])\<rparr>
         else m\<lparr>nickname := Some nicks\<rparr>)"

fun update_first :: "('a \<Rightarrow> bool) \<Rightarrow> ('a \<Rightarrow> 'a) \<Rightarrow> 'a list \<Rightarrow> 'a list" where
  "update_first P f [] = []"
| "update_first P f (x # xs) = (if P x then f x # xs else x # update_first P f xs)"

definition upsert :: "ustr \<Rightarrow> ustr \<Rightarrow> ustr \<Rightarrow> member list \<Rightarrow> member list" where
  "upsert s g n ms =
     (case find_by_sid_group s g ms of
        None \<Rightarrow> ms @ [\<lparr>nickname = Some [n], sid = Some s, group_id = Some g\<rparr>]
      | Some r \<Rightarrow> update_first (\<lambda>m. sid m = Some s \<and> group_id m = Some g) (add_nick n) ms)"

text \<open>
  \<^verbatim>\<open>cmd_member\<close>: the store after the command (written to the file by \<^verbatim>\<open>_save\<close> on
  the last path only) and the reply.
\<close>

definition cmd_member :: "event \<Rightarrow> ustr \<Rightarrow> member list \<Rightarrow> member list \<times> reply" where
  "cmd_member ev nick ms =
     (let gid = or_empty (get_group_id ev)
      in if gid = [] then (ms, GroupOnly)
         else case first_at_sid (get_messages ev) of
                None \<Rightarrow> (ms, NeedAt)
              | Some s \<Rightarrow>
                  if s = [] then (ms, NeedAt)
                  else let n = norm_str nick
                       in if n = [] then (ms, InvalidNick)
                          else (upsert s gid n ms, Recorded n s))"

text \<open>
  The loop of \<^verbatim>\<open>cmd_rm_nick\<close> over the records found: the state is the store and the
  counter \<^verbatim>\<open>touched\<close>.
\<close>

definition rm_step :: "ustr \<Rightarrow> nat \<Rightarrow> member list \<times> nat \<Rightarrow> member list \<times> nat" where
  "rm_step n i st =
     (let ms = fst st; touched = snd st;
          nicks = get_nickname (ms ! i);
          new_nicks = filter (\<lambda>x. norm_str x \<noteq> n) nicks
      in if length new_nicks \<noteq> length nicks
         then (ms[i := (ms ! i)\<lparr>nickname := Some new_nicks\<rparr>], touched + 1)
         else (ms, touched))"

definition cmd_rm_nick :: "event \<Rightarrow> ustr \<Rightarrow> member list \<Rightarrow> member list \<times> reply" where
  "cmd_rm_nick ev nick ms =
     (let gid = or_empty (get_group_id ev)
      in if gid = [] then (ms, GroupOnly)
         else let n = norm_str nick;
                  st = fold (rm_step n) (find_all_by_nickname n (Some gid) ms) (ms, 0)
              in if snd st \<noteq> 0 then (fst st, RemovedNick n (snd st)) else (fst st, NotFound))"

section \<open>The message hook\<close>

text \<open>
  \<^verbatim>\<open>first_pos\<close> is a dictionary from \<open>sid\<close> to index. Its iteration order is the order
  in which the keys were first stored, and \<^verbatim>\<open>sorted\<close> reads it in that order, so it is an
  association list: storing under an existing key replaces the value where the key stands,
  storing under a new key appends.
\<close>

fun dict_set :: "('k \<times> 'v) list \<Rightarrow> 'k \<Rightarrow> 'v \<Rightarrow> ('k \<times> 'v) list" where
  "dict_set [] k v = [(k, v)]"
| "dict_set ((k', v') # d) k v = (if k' = k then (k, v) # d else (k', v') # dict_set d k v)"

text \<open>The body of the inner loop, for one stored nickname \<open>raw\<close> of the member \<open>s\<close>.\<close>

definition scan_nick :: "ustr \<Rightarrow> ustr \<Rightarrow> (ustr \<times> int) list \<Rightarrow> ustr \<Rightarrow> (ustr \<times> int) list" where
  "scan_nick msg s first_pos raw =
     (let nick = norm_str raw
      in if nick = [] then first_pos
         else let idx = py_find msg nick
              in if idx \<noteq> - 1 then
                   (case map_of first_pos s of
                      None \<Rightarrow> dict_set first_pos s idx
                    | Some p \<Rightarrow> if idx < p then dict_set first_pos s idx else first_pos)
                 else first_pos)"

text \<open>The body of the outer loop, for one record.\<close>

definition scan_rec :: "ustr \<Rightarrow> ustr \<Rightarrow> (ustr \<times> int) list \<Rightarrow> member \<Rightarrow> (ustr \<times> int) list" where
  "scan_rec msg gid first_pos r =
     (if group_id r \<noteq> Some gid then first_pos
      else case sid r of
             None \<Rightarrow> first_pos
           | Some s \<Rightarrow> if s = [] then first_pos
                       else foldl (scan_nick msg s) first_pos (get_nickname r))"

definition collect_first_pos :: "ustr \<Rightarrow> ustr \<Rightarrow> member list \<Rightarrow> (ustr \<times> int) list" where
  "collect_first_pos msg gid ms = foldl (scan_rec msg gid) [] ms"

text \<open>
  \<^verbatim>\<open>sorted(first_pos.items(), key=lambda kv: kv[1])\<close> is a stable sort on the index;
  \<^const>\<open>sort_key\<close> is the stable insertion sort.
\<close>

definition order_sids :: "(ustr \<times> int) list \<Rightarrow> ustr list" where
  "order_sids first_pos = map fst (sort_key snd first_pos)"

text \<open>
  The chain before its last element is replaced: an \<open>At\<close> and a no-break space for
  every \<open>sid\<close>.
\<close>

definition nbsp :: ustr where
  "nbsp = [160]"

definition zwsp_nl :: ustr where
  "zwsp_nl = [8203, 10]"

fun mention_chain :: "ustr list \<Rightarrow> seg list" where
  "mention_chain [] = []"
| "mention_chain (s # ss) = At s # Plain nbsp # mention_chain ss"

text \<open>\<^verbatim>\<open>chain[-1] = x\<close> raises \<^verbatim>\<open>IndexError\<close> on an empty list.\<close>

datatype py_error = IndexError

definition set_last :: "'a list \<Rightarrow> 'a \<Rightarrow> py_error + 'a list" where
  "set_last xs x = (if xs = [] then Inl IndexError else Inr (butlast xs @ [x]))"

text \<open>The records the broadcast branch mentions: those of the group with a \<open>sid\<close>.\<close>

fun broadcast_sids :: "ustr \<Rightarrow> member list \<Rightarrow> ustr list" where
  "broadcast_sids gid [] = []"
| "broadcast_sids gid (r # rs) =
     (if group_id r \<noteq> Some gid then broadcast_sids gid rs
      else case sid r of
             None \<Rightarrow> broadcast_sids gid rs
           | Some s \<Rightarrow> if s = [] then broadcast_sids gid rs else s # broadcast_sids gid rs)"

definition triggers :: "ustr list" where
  "triggers = [[37117, 26469, 24247], [37117, 26469, 30475]]"

text \<open>
  \<^verbatim>\<open>on_group_message\<close>, on the store as \<^verbatim>\<open>_load\<close> left it. \<open>Inr None\<close>: the handler
  returns without a message; \<open>Inr (Some chain)\<close>: it yields \<^verbatim>\<open>chain_result(chain)\<close>;
  \<open>Inl e\<close>: it raises.
\<close>

definition on_group_message :: "event \<Rightarrow> member list \<Rightarrow> py_error + seg list option" where
  "on_group_message ev ms =
     (let raw = strip_at ev; msg = lower raw
      in if prefix (u ''/'') msg then Inr None
         else let gid = or_empty (get_group_id ev)
              in if gid = [] then Inr None
                 else if list_ex (contains msg) triggers then
                   (let chain = mention_chain (broadcast_sids gid ms)
                    in if chain \<noteq> [] then
                         (case set_last chain (Plain (zwsp_nl @ msg)) of
                            Inl e \<Rightarrow> Inl e
                          | Inr chain' \<Rightarrow> Inr (Some chain'))
                       else Inr None)
                 else
                   (let first_pos = collect_first_pos msg gid ms
                    in if first_pos = [] then Inr None
                       else case set_last (mention_chain (order_sids first_pos))
                                   (Plain (zwsp_nl @ msg)) of
                              Inl e \<Rightarrow> Inl e
                            | Inr chain' \<Rightarrow> Inr (Some chain')))"

section \<open>Specification of the lookup\<close>

text \<open>
  The lookup as the specification words it, to be compared with the loop of the hook.
  \<open>spec_rec_hits\<close>: the occurrences found for one record, a pair of the record's
  \<open>sid\<close> and the first index of a nickname in the message, for every nickname of the
  record that occurs; \<open>spec_hits\<close>: those of the whole store, in iteration order.
\<close>

definition spec_rec_hits :: "ustr \<Rightarrow> ustr \<Rightarrow> member \<Rightarrow> (ustr \<times> int) list" where
  "spec_rec_hits msg g r =
     (if group_id r = Some g \<and> or_empty (sid r) \<noteq> [] then
        map (\<lambda>x. (or_empty (sid r), py_find msg (norm_str x)))
          (filter (\<lambda>x. norm_str x \<noteq> [] \<and> py_find msg (norm_str x) \<noteq> - 1) (get_nickname r))
      else [])"

definition spec_hits :: "ustr \<Rightarrow> ustr \<Rightarrow> member list \<Rightarrow> (ustr \<times> int) list" where
  "spec_hits msg g ms = concat (map (spec_rec_hits msg g) ms)"

text \<open>The elements of a list in the order of their first occurrence, each once.\<close>

fun first_seen :: "'a list \<Rightarrow> 'a list" where
  "first_seen [] = []"
| "first_seen (x # xs) = x # removeAll x (first_seen xs)"

text \<open>The minimum index of a member over all occurrences of its nicknames.\<close>

definition spec_min_index :: "(ustr \<times> int) list \<Rightarrow> ustr \<Rightarrow> int" where
  "spec_min_index h s = Min (set (map snd (filter (\<lambda>p. fst p = s) h)))"

text \<open>
  The distinct matched members in store order, sorted by their minimum index with a
  stable sort.
\<close>

definition spec_lookup :: "ustr \<Rightarrow> ustr \<Rightarrow> member list \<Rightarrow> ustr list" where
  "spec_lookup msg g ms =
     sort_key (spec_min_index (spec_hits msg g ms)) (first_seen (map fst (spec_hits msg g ms)))"

text \<open>What the loop does with one occurrence: keep the smaller index.\<close>

fun store_min :: "(ustr \<times> int) list \<Rightarrow> ustr \<times> int \<Rightarrow> (ustr \<times> int) list" where
  "store_min fp (s, idx) =
     (case map_of fp s of
        None \<Rightarrow> dict_set fp s idx
      | Some q \<Rightarrow> if idx < q then dict_set fp s idx else fp)"

text \<open>A record without its nicknames that are empty once trimmed.\<close>

definition drop_blank :: "member \<Rightarrow> member" where
  "drop_blank r = r\<lparr>nickname := map_option (filter (\<lambda>x. norm_str x \<noteq> [])) (nickname r)\<rparr>"

text \<open>A record after \<^verbatim>\<open>rm_nick\<close> has taken the nickname \<open>n\<close> from it.\<close>

definition without_nick :: "ustr \<Rightarrow> member \<Rightarrow> member" where
  "without_nick n m = m\<lparr>nickname := Some (filter (\<lambda>x. norm_str x \<noteq> n) (get_nickname m))\<rparr>"

section \<open>Example data\<close>

definition mk_member :: "string list \<Rightarrow> string \<Rightarrow> string \<Rightarrow> member" where
  "mk_member ns s g = \<lparr>nickname = Some (map u ns), sid = Some (u s), group_id = Some (u g)\<rparr>"

definition member_a :: member where
  "member_a = mk_member [''cat''] ''A'' ''G''"

definition member_b :: member where
  "member_b = mk_member [''dog''] ''B'' ''G''"

definition member_c :: member where
  "member_c = mk_member [] ''C'' ''G''"

definition member_upper :: member where
  "member_upper = mk_member [''Cat''] ''A'' ''G''"

definition member_blank :: member where
  "member_blank = mk_member [''  '', []] ''A'' ''G''"

definition member_elsewhere :: member where
  "member_elsewhere = mk_member [''dog''] ''D'' ''G1''"

definition member_no_sid :: member where
  "member_no_sid = \<lparr>nickname = Some [u ''cat''], sid = None, group_id = Some (u ''G'')\<rparr>"

definition member_empty_sid :: member where
  "member_empty_sid = mk_member [''cat''] [] ''G''"

text \<open>A message of the group \<open>G\<close> with one text component.\<close>

definition ev_text :: "ustr \<Rightarrow> event" where
  "ev_text t = \<lparr>get_messages = [Plain t], message_str = None, get_group_id = Some (u ''G'')\<rparr>"

text \<open>A command message of the group \<open>G\<close> that mentions the member \<open>A\<close>.\<close>

definition ev_at_a :: "ustr \<Rightarrow> event" where
  "ev_at_a t = \<lparr>get_messages = [Plain t, At (u ''A'')], message_str = None,
                get_group_id = Some (u ''G'')\<rparr>"

section \<open>Strings: basic facts\<close>

lemma u_slash: "u ''/'' = [47]"
  by (simp add: u_def)

lemma lower_keeps_slash: "prefix (u ''/'') s \<Longrightarrow> prefix (u ''/'') (lower s)"
  by (cases s) (auto simp: u_slash lower_def lower_cp_def)

lemma lower_adds_no_slash: "\<not> prefix (u ''/'') s \<Longrightarrow> \<not> prefix (u ''/'') (lower s)"
  by (cases s) (auto simp: u_slash lower_def lower_cp_def)

lemma py_find_empty: "py_find s [] = 0"
  by (cases s) (simp_all add: py_find_def)

text \<open>
  \<open>find_at\<close> returns the first position at which \<open>sub\<close> is a prefix of the rest of
  the string, counted from \<open>k\<close>, and \<open>-1\<close> when \<open>sub\<close> does not occur.
\<close>

lemma find_at_first:
  "find_at sub s k = r \<Longrightarrow>
     (r = - 1 \<and> \<not> contains s sub) \<or>
     (\<exists>i\<le>length s. r = k + int i \<and> prefix sub (drop i s) \<and> (\<forall>j<i. \<not> prefix sub (drop j s)))"
proof (induction s arbitrary: k r)
  case Nil
  then show ?case by auto
next
  case (Cons c cs)
  show ?case
  proof (cases "prefix sub (c # cs)")
    case True
    with Cons.prems show ?thesis by auto
  next
    case False
    with Cons.prems have "find_at sub cs (k + 1) = r" by simp
    from Cons.IH [OF this] show ?thesis
    proof
      assume "r = - 1 \<and> \<not> contains cs sub"
      with False show ?thesis by simp
    next
      assume "\<exists>i\<le>length cs. r = k + 1 + int i \<and> prefix sub (drop i cs) \<and>
                (\<forall>j<i. \<not> prefix sub (drop j cs))"
      then obtain i where i: "i \<le> length cs" "r = k + 1 + int i" "prefix sub (drop i cs)"
        "\<forall>j<i. \<not> prefix sub (drop j cs)" by blast
      have "\<forall>j<Suc i. \<not> prefix sub (drop j (c # cs))"
      proof (intro allI impI)
        fix j assume "j < Suc i"
        then show "\<not> prefix sub (drop j (c # cs))"
          using False i(4) by (cases j) auto
      qed
      with i have "Suc i \<le> length (c # cs) \<and> r = k + int (Suc i) \<and>
          prefix sub (drop (Suc i) (c # cs)) \<and> (\<forall>j<Suc i. \<not> prefix sub (drop j (c # cs)))"
        by simp
      then show ?thesis by blast
    qed
  qed
qed

lemma py_find_first:
  "py_find s sub = - 1 \<and> \<not> contains s sub \<or>
   (\<exists>i\<le>length s. py_find s sub = int i \<and> prefix sub (drop i s) \<and>
      (\<forall>j<i. \<not> prefix sub (drop j s)))"
  using find_at_first [of sub s 0 "py_find s sub"] by (simp add: py_find_def)

lemma contains_iff_sublist: "contains s sub \<longleftrightarrow> sublist sub s"
  by (induction s) (auto simp: sublist_Cons_right)

lemma contains_lower:
  assumes "contains s t" and "\<forall>c\<in>set t. lower_cp c = c"
  shows "contains (lower s) t"
proof -
  from assms(1) obtain ps ss where "s = ps @ t @ ss"
    by (auto simp: contains_iff_sublist sublist_def)
  moreover from assms(2) have "map lower_cp t = t"
    by (induction t) auto
  ultimately have "lower s = lower ps @ t @ lower ss"
    by (simp add: lower_def)
  then show ?thesis
    unfolding contains_iff_sublist sublist_def by blast
qed

lemma trigger_caseless: "t \<in> set triggers \<Longrightarrow> \<forall>c\<in>set t. lower_cp c = c"
  by (auto simp: triggers_def lower_cp_def)

lemma trigger_in_lower:
  "list_ex (contains s) triggers \<Longrightarrow> list_ex (contains (lower s)) triggers"
  unfolding list_ex_iff using contains_lower trigger_caseless by blast

text \<open>Trimming a trimmed string changes nothing.\<close>

lemma dropWhile_rev_dropWhile:
  "dropWhile P (rev (dropWhile P (rev (dropWhile P s)))) = rev (dropWhile P (rev (dropWhile P s)))"
proof (cases "dropWhile P (rev (dropWhile P s)) = []")
  case True
  show ?thesis unfolding True by simp
next
  case False
  let ?t = "dropWhile P s"
  let ?w = "dropWhile P (rev ?t)"
  have t: "?t \<noteq> []"
  proof
    assume empty: "?t = []"
    show False using False unfolding empty by simp
  qed
  have "last ?w = last (rev ?t)"
    using False by (simp add: dropWhile_eq_drop)
  also have "\<dots> = hd ?t" using t by (simp add: last_rev)
  finally have "\<not> P (last ?w)" using t hd_dropWhile by metis
  then have "\<not> P (hd (rev ?w))" using False by (simp add: hd_rev)
  then show ?thesis using False by (cases "rev ?w") auto
qed

lemma strip_idem: "strip (strip s) = strip s"
  by (simp add: strip_def dropWhile_rev_dropWhile)

lemma norm_str_idem: "norm_str (norm_str s) = norm_str s"
  by (simp add: norm_str_def strip_idem)

section \<open>The chain\<close>

lemma mention_chain_Nil_iff: "mention_chain ss = [] \<longleftrightarrow> ss = []"
  by (cases ss) auto

lemma At_in_mention_chain: "At q \<in> set (mention_chain ss) \<longleftrightarrow> q \<in> set ss"
  by (induction ss) auto

lemma set_last_Inr: "xs \<noteq> [] \<Longrightarrow> set_last xs x = Inr (butlast xs @ [x])"
  by (simp add: set_last_def)

lemma At_in_rewritten:
  "At q \<in> set (butlast (mention_chain ss) @ [Plain t]) \<Longrightarrow> q \<in> set ss"
  by (auto dest: in_set_butlastD simp: At_in_mention_chain)

section \<open>The broadcast branch\<close>

lemma broadcast_sids_eq:
  "broadcast_sids g ms =
     map (\<lambda>r. or_empty (sid r)) (filter (\<lambda>r. group_id r = Some g \<and> or_empty (sid r) \<noteq> []) ms)"
  by (induction ms) (auto simp: or_empty_def split: option.splits)

lemma broadcast_sids_group:
  "broadcast_sids g (filter (\<lambda>r. group_id r = Some g) ms) = broadcast_sids g ms"
  by (induction ms) (auto split: option.splits)

lemma broadcast_sids_drop_blank: "broadcast_sids g (map drop_blank ms) = broadcast_sids g ms"
  by (simp add: broadcast_sids_eq filter_map o_def drop_blank_def)

section \<open>The matching loop\<close>

lemma scan_rec_other_group: "group_id r \<noteq> Some g \<Longrightarrow> scan_rec msg g fp r = fp"
  by (simp add: scan_rec_def)

lemma foldl_scan_rec_group:
  "foldl (scan_rec msg g) fp (filter (\<lambda>r. group_id r = Some g) ms) = foldl (scan_rec msg g) fp ms"
  by (induction ms arbitrary: fp) (auto simp: scan_rec_other_group)

lemma collect_first_pos_group:
  "collect_first_pos msg g (filter (\<lambda>r. group_id r = Some g) ms) = collect_first_pos msg g ms"
  by (simp add: collect_first_pos_def foldl_scan_rec_group)

lemma on_group_message_group:
  "on_group_message ev (filter (\<lambda>r. group_id r = Some (or_empty (get_group_id ev))) ms) =
   on_group_message ev ms"
  by (simp add: on_group_message_def Let_def broadcast_sids_group collect_first_pos_group)

lemma scan_rec_no_sid: "or_empty (sid r) = [] \<Longrightarrow> scan_rec msg g fp r = fp"
  by (auto simp: scan_rec_def or_empty_def split: option.splits)

lemma foldl_scan_rec_has_sid:
  "foldl (scan_rec msg g) fp (filter (\<lambda>r. or_empty (sid r) \<noteq> []) ms) = foldl (scan_rec msg g) fp ms"
  by (induction ms arbitrary: fp) (auto simp: scan_rec_no_sid)

lemma scan_nick_blank: "norm_str raw = [] \<Longrightarrow> scan_nick msg s fp raw = fp"
  by (simp add: scan_nick_def)

lemma foldl_scan_nick_drop_blank:
  "foldl (scan_nick msg s) fp (filter (\<lambda>x. norm_str x \<noteq> []) ns) = foldl (scan_nick msg s) fp ns"
  by (induction ns arbitrary: fp) (auto simp: scan_nick_blank)

lemma scan_rec_drop_blank: "scan_rec msg g fp (drop_blank r) = scan_rec msg g fp r"
  by (cases "nickname r")
     (auto simp: scan_rec_def drop_blank_def get_nickname_def foldl_scan_nick_drop_blank
           split: option.splits)

lemma foldl_scan_rec_drop_blank:
  "foldl (scan_rec msg g) fp (map drop_blank ms) = foldl (scan_rec msg g) fp ms"
  by (induction ms arbitrary: fp) (auto simp: scan_rec_drop_blank)

section \<open>The loop computes the specified lookup\<close>

lemma first_seen_Nil_iff: "first_seen xs = [] \<longleftrightarrow> xs = []"
  by (cases xs) simp_all

lemma set_first_seen: "set (first_seen xs) = set xs"
  by (induction xs) auto

lemma distinct_first_seen: "distinct (first_seen xs)"
  by (induction xs) (auto simp: distinct_removeAll)

lemma first_seen_snoc:
  "first_seen (xs @ [x]) = (if x \<in> set xs then first_seen xs else first_seen xs @ [x])"
  by (induction xs) auto

lemma first_seen_replicate_append:
  "first_seen (replicate n x @ ys) =
     (if n = 0 then first_seen ys else x # removeAll x (first_seen ys))"
  by (induction n) auto

lemma map_fst_spec_rec_hits:
  "map fst (spec_rec_hits msg g r) = replicate (length (spec_rec_hits msg g r)) (or_empty (sid r))"
  by (simp add: spec_rec_hits_def o_def map_replicate_const)

text \<open>The order in which the members are first matched is the order of their records.\<close>

lemma first_seen_spec_hits:
  "first_seen (map fst (spec_hits msg g ms)) =
   first_seen (map (\<lambda>r. or_empty (sid r)) (filter (\<lambda>r. spec_rec_hits msg g r \<noteq> []) ms))"
proof (induction ms)
  case Nil
  then show ?case by (simp add: spec_hits_def)
next
  case (Cons r ms)
  have "map fst (spec_hits msg g (r # ms)) =
        replicate (length (spec_rec_hits msg g r)) (or_empty (sid r)) @ map fst (spec_hits msg g ms)"
    by (simp add: spec_hits_def map_fst_spec_rec_hits)
  with Cons show ?case
    by (simp add: first_seen_replicate_append)
qed

lemma foldl_scan_nick_hits:
  "foldl (scan_nick msg s) fp ns =
   foldl store_min fp (map (\<lambda>x. (s, py_find msg (norm_str x)))
     (filter (\<lambda>x. norm_str x \<noteq> [] \<and> py_find msg (norm_str x) \<noteq> - 1) ns))"
  by (induction ns arbitrary: fp) (simp_all add: scan_nick_def Let_def)

lemma scan_rec_hits: "scan_rec msg g fp r = foldl store_min fp (spec_rec_hits msg g r)"
  by (auto simp: scan_rec_def spec_rec_hits_def or_empty_def foldl_scan_nick_hits
      split: option.splits)

lemma foldl_scan_rec_hits:
  "foldl (scan_rec msg g) fp ms = foldl store_min fp (concat (map (spec_rec_hits msg g) ms))"
  by (induction ms arbitrary: fp) (simp_all add: scan_rec_hits)

lemma collect_first_pos_hits: "collect_first_pos msg g ms = foldl store_min [] (spec_hits msg g ms)"
  by (simp add: collect_first_pos_def spec_hits_def foldl_scan_rec_hits)

lemma map_of_graph: "map_of (map (\<lambda>s. (s, f s)) L) k = (if k \<in> set L then Some (f k) else None)"
  by (induction L) auto

lemma dict_set_graph_new:
  "k \<notin> set L \<Longrightarrow> dict_set (map (\<lambda>s. (s, f s)) L) k v = map (\<lambda>s. (s, f s)) L @ [(k, v)]"
  by (induction L) auto

lemma dict_set_graph_old:
  "k \<in> set L \<Longrightarrow> distinct L \<Longrightarrow>
   dict_set (map (\<lambda>s. (s, f s)) L) k v = map (\<lambda>s. (s, (f(k := v)) s)) L"
  by (induction L) auto

lemma spec_min_index_snoc_other:
  "s \<noteq> k \<Longrightarrow> spec_min_index (h @ [(k, v)]) s = spec_min_index h s"
  by (simp add: spec_min_index_def)

lemma spec_min_index_snoc_new:
  "k \<notin> fst ` set h \<Longrightarrow> spec_min_index (h @ [(k, v)]) k = v"
proof -
  assume "k \<notin> fst ` set h"
  then have "filter (\<lambda>p. fst p = k) h = []"
    by (auto simp: filter_empty_conv)
  then show ?thesis by (simp add: spec_min_index_def)
qed

lemma spec_min_index_snoc_old:
  "k \<in> fst ` set h \<Longrightarrow> spec_min_index (h @ [(k, v)]) k = min v (spec_min_index h k)"
proof -
  assume "k \<in> fst ` set h"
  then have "set (map snd (filter (\<lambda>p. fst p = k) h)) \<noteq> {}"
    by (auto simp: filter_empty_conv)
  then show ?thesis by (simp add: spec_min_index_def)
qed

text \<open>
  The invariant of the loop: after the occurrences \<open>h\<close>, the dictionary holds the members
  seen, in the order they were first seen, each with its minimum index.
\<close>

lemma foldl_store_min:
  "foldl store_min [] h = map (\<lambda>s. (s, spec_min_index h s)) (first_seen (map fst h))"
proof (induction h rule: rev_induct)
  case Nil
  then show ?case by simp
next
  case (snoc p h)
  obtain k v where p: "p = (k, v)" by (cases p)
  let ?L = "first_seen (map fst h)"
  let ?f = "spec_min_index h"
  let ?f' = "spec_min_index (h @ [(k, v)])"
  have L: "set ?L = fst ` set h" by (simp add: set_first_seen)
  have other: "map (\<lambda>s. (s, ?f' s)) (removeAll k ?L) = map (\<lambda>s. (s, ?f s)) (removeAll k ?L)"
    by (rule map_cong) (auto simp: spec_min_index_snoc_other)
  show ?case
  proof (cases "k \<in> fst ` set h")
    case False
    then have "removeAll k ?L = ?L" using L by simp
    with other have "map (\<lambda>s. (s, ?f' s)) ?L = map (\<lambda>s. (s, ?f s)) ?L" by simp
    with False show ?thesis
      using L by (simp add: snoc.IH p map_of_graph dict_set_graph_new
          first_seen_snoc spec_min_index_snoc_new)
  next
    case True
    have upd: "map (\<lambda>s. (s, ?f' s)) ?L = map (\<lambda>s. (s, (?f(k := ?f' k)) s)) ?L"
      by (rule map_cong) (auto simp: spec_min_index_snoc_other)
    have same: "map (\<lambda>s. (s, ?f' s)) ?L = map (\<lambda>s. (s, ?f s)) ?L" if "?f' k = ?f k"
    proof (rule map_cong [OF refl])
      fix x
      show "(x, ?f' x) = (x, ?f x)"
        using that by (cases "x = k") (simp_all add: spec_min_index_snoc_other)
    qed
    from True have k: "?f' k = min v (?f k)" by (rule spec_min_index_snoc_old)
    show ?thesis
    proof (cases "v < ?f k")
      case less: True
      then have "?f' k = v" using k by simp
      with upd True less show ?thesis
        using L by (simp add: snoc.IH p map_of_graph dict_set_graph_old
            distinct_first_seen first_seen_snoc)
    next
      case geq: False
      then have "?f' k = ?f k" using k by simp
      with same True geq show ?thesis
        using L by (simp add: snoc.IH p map_of_graph first_seen_snoc)
    qed
  qed
qed

lemma insort_key_graph:
  "insort_key snd (s, f s) (map (\<lambda>s. (s, f s)) ys) = map (\<lambda>s. (s, f s)) (insort_key f s ys)"
  by (induction ys) auto

lemma sort_key_graph:
  "sort_key snd (map (\<lambda>s. (s, f s)) L) = map (\<lambda>s. (s, f s)) (sort_key f L)"
  by (induction L) (auto simp: insort_key_graph)

lemma order_sids_graph: "order_sids (map (\<lambda>s. (s, f s)) L) = sort_key f L"
  by (simp add: order_sids_def sort_key_graph o_def)

lemma order_sids_collect: "order_sids (collect_first_pos msg g ms) = spec_lookup msg g ms"
  by (simp add: collect_first_pos_hits foldl_store_min order_sids_graph spec_lookup_def)

lemma collect_first_pos_Nil_iff: "collect_first_pos msg g ms = [] \<longleftrightarrow> spec_hits msg g ms = []"
  by (simp add: collect_first_pos_hits foldl_store_min first_seen_Nil_iff)

lemma set_spec_lookup: "set (spec_lookup msg g ms) = fst ` set (spec_hits msg g ms)"
  by (simp add: spec_lookup_def set_first_seen)

lemma spec_lookup_Nil_iff: "spec_lookup msg g ms = [] \<longleftrightarrow> spec_hits msg g ms = []"
  using set_spec_lookup [of msg g ms] by (cases "spec_hits msg g ms") auto

lemma spec_hits_sid_nonempty: "([], i) \<notin> set (spec_hits msg g ms)"
  by (auto simp: spec_hits_def spec_rec_hits_def split: if_splits)

text \<open>The two shapes of a message the hook emits; the hook never raises.\<close>

lemma on_group_message_Some:
  assumes "on_group_message ev ms = Inr (Some chain)"
  shows "\<exists>sids. chain = butlast (mention_chain sids) @ [Plain (zwsp_nl @ lower (strip_at ev))] \<and>
           (sids = broadcast_sids (or_empty (get_group_id ev)) ms \<or>
            sids = spec_lookup (lower (strip_at ev)) (or_empty (get_group_id ev)) ms)"
  using assms
  by (auto simp: on_group_message_def Let_def set_last_def order_sids_collect
      split: if_splits)

lemma on_group_message_never_raises: "on_group_message ev ms \<noteq> Inl e"
  by (simp add: on_group_message_def Let_def set_last_def mention_chain_Nil_iff
      order_sids_collect spec_lookup_Nil_iff collect_first_pos_Nil_iff)

section \<open>The store operations\<close>

lemma find_update_first:
  assumes "\<And>x. P x \<Longrightarrow> P (f x)"
  shows "find P (update_first P f xs) = map_option f (find P xs)"
  using assms by (induction xs) auto

lemma update_first_fix:
  "find P xs = Some x \<Longrightarrow> f x = x \<Longrightarrow> update_first P f xs = xs"
  by (induction xs) (auto split: if_splits)

lemma find_append_none: "find P xs = None \<Longrightarrow> find P (xs @ ys) = find P ys"
  by (induction xs) (auto split: if_splits)

lemma add_nick_keeps_key:
  "sid (add_nick n m) = sid m" "group_id (add_nick n m) = group_id m"
  by (simp_all add: add_nick_def Let_def)

lemma get_nickname_add_nick:
  "get_nickname (add_nick n m) =
     (if list_all (\<lambda>x. norm_str x \<noteq> n) (get_nickname m) then get_nickname m @ [n]
      else get_nickname m)"
  by (simp add: add_nick_def Let_def get_nickname_def)

lemma add_nick_idem: "norm_str n = n \<Longrightarrow> add_nick n (add_nick n m) = add_nick n m"
  by (auto simp: add_nick_def Let_def get_nickname_def list_all_iff split: option.splits)

lemma count_add_nick:
  assumes "norm_str n = n"
  shows "length (filter (\<lambda>x. norm_str x = n) (get_nickname (add_nick n m))) =
         max 1 (length (filter (\<lambda>x. norm_str x = n) (get_nickname m)))"
proof (cases "list_all (\<lambda>x. norm_str x \<noteq> n) (get_nickname m)")
  case True
  then have "filter (\<lambda>x. norm_str x = n) (get_nickname m) = []"
    by (auto simp: list_all_iff filter_empty_conv)
  with True assms show ?thesis by (simp add: get_nickname_add_nick)
next
  case False
  then have "filter (\<lambda>x. norm_str x = n) (get_nickname m) \<noteq> []"
    by (auto simp: list_all_iff filter_empty_conv)
  then have "1 \<le> length (filter (\<lambda>x. norm_str x = n) (get_nickname m))"
    by (cases "filter (\<lambda>x. norm_str x = n) (get_nickname m)") auto
  with False show ?thesis by (simp add: get_nickname_add_nick)
qed

lemma find_upsert:
  "find_by_sid_group s g (upsert s g n ms) =
     (case find_by_sid_group s g ms of
        None \<Rightarrow> Some \<lparr>nickname = Some [n], sid = Some s, group_id = Some g\<rparr>
      | Some r \<Rightarrow> Some (add_nick n r))"
  by (auto simp: upsert_def find_by_sid_group_def find_append_none find_update_first
      add_nick_keeps_key split: option.splits)

lemma upsert_idem:
  assumes "norm_str n = n"
  shows "upsert s g n (upsert s g n ms) = upsert s g n ms"
proof (cases "find_by_sid_group s g ms")
  case None
  let ?new = "\<lparr>nickname = Some [n], sid = Some s, group_id = Some g\<rparr>"
  have "find_by_sid_group s g (ms @ [?new]) = Some ?new"
    using None by (simp add: find_by_sid_group_def find_append_none)
  moreover have "add_nick n ?new = ?new"
    using assms by (simp add: add_nick_def get_nickname_def)
  ultimately show ?thesis
    using None by (simp add: upsert_def find_by_sid_group_def update_first_fix)
next
  case (Some r)
  let ?P = "\<lambda>m. sid m = Some s \<and> group_id m = Some g"
  have f: "find_by_sid_group s g (upsert s g n ms) = Some (add_nick n r)"
    using Some by (simp add: find_upsert)
  have "upsert s g n (upsert s g n ms) = update_first ?P (add_nick n) (upsert s g n ms)"
    using f by (simp add: upsert_def)
  also have "\<dots> = upsert s g n ms"
    using f assms by (intro update_first_fix [where x = "add_nick n r"])
      (simp_all add: find_by_sid_group_def add_nick_idem)
  finally show ?thesis .
qed

text \<open>
  The loop of \<^verbatim>\<open>rm_nick\<close>, run over distinct positions of records that hold the
  nickname, rewrites exactly those records and counts each of them.
\<close>

lemma rm_step_fold:
  assumes "distinct is" and "\<forall>i\<in>set is. i < length ms \<and> nick_hit n g (ms ! i)"
  shows "fold (rm_step n) is (ms, t) =
         (map (\<lambda>i. if i \<in> set is then without_nick n (ms ! i) else ms ! i) [0..<length ms],
          t + length is)"
  using assms
proof (induction "is" arbitrary: ms t)
  case Nil
  then show ?case by (simp add: map_nth)
next
  case (Cons i "is")
  let ?ms' = "ms[i := without_nick n (ms ! i)]"
  from Cons.prems have i: "i < length ms" "nick_hit n g (ms ! i)" "i \<notin> set is" by auto
  from i(2) have "length (filter (\<lambda>x. norm_str x \<noteq> n) (get_nickname (ms ! i))) \<noteq>
                  length (get_nickname (ms ! i))"
    by (auto simp: nick_hit_def list_ex_iff
        dest!: length_filter_less [where P = "\<lambda>x. norm_str x \<noteq> n"])
  then have step: "rm_step n i (ms, t) = (?ms', t + 1)"
    by (simp add: rm_step_def Let_def without_nick_def)
  have prems': "distinct is" "\<forall>j\<in>set is. j < length ?ms' \<and> nick_hit n g (?ms' ! j)"
    using Cons.prems i(3) by (auto simp: nth_list_update)
  have "fold (rm_step n) (i # is) (ms, t) = fold (rm_step n) is (?ms', t + 1)"
    by (simp add: step)
  also have "\<dots> = (map (\<lambda>j. if j \<in> set is then without_nick n (?ms' ! j) else ?ms' ! j)
                        [0..<length ?ms'],
                     t + 1 + length is)"
    by (rule Cons.IH [OF prems'])
  also have "map (\<lambda>j. if j \<in> set is then without_nick n (?ms' ! j) else ?ms' ! j)
               [0..<length ?ms'] =
             map (\<lambda>j. if j \<in> set (i # is) then without_nick n (ms ! j) else ms ! j)
               [0..<length ms]"
    using i by (auto simp: nth_list_update)
  finally show ?case by simp
qed

lemma length_filter_index:
  "length (filter (\<lambda>i. P (xs ! i)) [0..<length xs]) = length (filter P xs)"
proof -
  have "filter P xs = filter P (map (\<lambda>i. xs ! i) [0..<length xs])"
    by (simp add: map_nth)
  also have "\<dots> = map (\<lambda>i. xs ! i) (filter (\<lambda>i. P (xs ! i)) [0..<length xs])"
    by (simp add: filter_map o_def)
  finally show ?thesis by simp
qed

lemma rm_nick_loop:
  "fold (rm_step n) (find_all_by_nickname n g ms) (ms, 0) =
     (map (\<lambda>m. if nick_hit n g m then without_nick n m else m) ms,
      length (filter (nick_hit n g) ms))"
proof -
  let ?is = "find_all_by_nickname n g ms"
  have "fold (rm_step n) ?is (ms, 0) =
        (map (\<lambda>i. if i \<in> set ?is then without_nick n (ms ! i) else ms ! i) [0..<length ms],
         0 + length ?is)"
    by (rule rm_step_fold) (auto simp: find_all_by_nickname_def)
  moreover have "map (\<lambda>i. if i \<in> set ?is then without_nick n (ms ! i) else ms ! i) [0..<length ms] =
                 map (\<lambda>m. if nick_hit n g m then without_nick n m else m) ms"
    by (rule nth_equalityI) (simp_all add: find_all_by_nickname_def)
  moreover have "length ?is = length (filter (nick_hit n g) ms)"
    by (simp add: find_all_by_nickname_def length_filter_index)
  ultimately show ?thesis by simp
qed

lemma cmd_rm_nick_eq:
  assumes "or_empty (get_group_id ev) = g" and "g \<noteq> []" and "norm_str nick = n"
  shows "cmd_rm_nick ev nick ms =
     (map (\<lambda>m. if nick_hit n (Some g) m then without_nick n m else m) ms,
      if length (filter (nick_hit n (Some g)) ms) \<noteq> 0
      then RemovedNick n (length (filter (nick_hit n (Some g)) ms)) else NotFound)"
  using assms by (simp add: cmd_rm_nick_def Let_def rm_nick_loop)

lemma not_hit_filter_id:
  "group_id m = Some g \<Longrightarrow> \<not> nick_hit n (Some g) m \<Longrightarrow>
   filter (\<lambda>x. norm_str x \<noteq> n) (get_nickname m) = get_nickname m"
  by (auto simp: nick_hit_def list_ex_iff filter_id_conv)

lemma nickname_changed_iff:
  "nickname (if nick_hit n g m then without_nick n m else m) \<noteq> nickname m \<longleftrightarrow> nick_hit n g m"
proof (cases "nick_hit n g m")
  case False
  then show ?thesis by simp
next
  case True
  then obtain x where x: "x \<in> set (get_nickname m)" "norm_str x = n"
    by (auto simp: nick_hit_def list_ex_iff)
  then obtain ns where ns: "nickname m = Some ns" "x \<in> set ns"
    by (cases "nickname m") (auto simp: get_nickname_def)
  have "length (filter (\<lambda>x. norm_str x \<noteq> n) ns) < length ns"
    using ns(2) x(2) by (intro length_filter_less [of x]) auto
  then have "filter (\<lambda>x. norm_str x \<noteq> n) ns \<noteq> ns" by auto
  with True ns show ?thesis by (simp add: without_nick_def get_nickname_def)
qed

section \<open>Evaluating the examples\<close>

lemmas string_eval = u_def strip_def isspace_def lower_def lower_cp_def norm_str_def

lemmas member_eval = mk_member_def member_a_def member_b_def member_c_def member_upper_def
  member_blank_def member_elsewhere_def member_no_sid_def member_empty_sid_def
  get_nickname_def or_empty_def

lemmas hook_eval = on_group_message_def Let_def ev_text_def strip_at_def triggers_def
  collect_first_pos_def scan_rec_def scan_nick_def py_find_def order_sids_def set_last_def
  zwsp_nl_def nbsp_def

lemma ev_text_group: "or_empty (get_group_id (ev_text t)) = u ''G''"
  by (simp add: ev_text_def or_empty_def)

lemma u_G_nonempty: "u ''G'' \<noteq> []"
  by (simp add: u_def)

section \<open>The claims\<close>

text \<open>
  Claim C1: the last segment of a rewritten message is the zero-width marker, a newline and
  the original text of the message, character for character. The comment above the hook
  says the same ("the mentions, then the original message"), yet the hook appends \<open>msg\<close>,
  the lower-cased text: for the message \<open>Hi Cat\<close> it emits \<open>hi cat\<close>.
\<close>

theorem rewritten_text_is_lowercased:
  "strip_at (ev_text (u ''Hi Cat'')) = u ''Hi Cat'' \<and>
   on_group_message (ev_text (u ''Hi Cat'')) [member_a] =
     Inr (Some [At (u ''A''), Plain (zwsp_nl @ u ''hi cat'')]) \<and>
   u ''hi cat'' \<noteq> u ''Hi Cat''"
  by (simp add: hook_eval member_eval string_eval)

text \<open>
  Claim C2: the index is that of the case-folded nickname in the case-folded message, so a
  nickname with upper-case letters matches in any letter case. The hook folds the message
  and not the nickname: the stored nickname \<open>Cat\<close> matches neither \<open>my Cat\<close> nor
  \<open>my cat\<close>, while the stored nickname \<open>cat\<close> matches \<open>my Cat\<close>.
\<close>

theorem uppercase_nickname_never_matches:
  "on_group_message (ev_text (u ''my Cat'')) [member_upper] = Inr None \<and>
   on_group_message (ev_text (u ''my cat'')) [member_upper] = Inr None \<and>
   on_group_message (ev_text (u ''my Cat'')) [member_a] =
     Inr (Some [At (u ''A''), Plain (zwsp_nl @ u ''my cat'')])"
  by (simp add: hook_eval member_eval string_eval)

text \<open>
  Claim C3: when the message is no command, the group is known, no trigger fires and some
  nickname occurs, the members mentioned are the distinct matched members sorted by their
  minimum first-occurrence index, members with equal index staying in the order in which
  the iteration of the store first matched them, which is the order of the matching
  records in the store.
\<close>

theorem lookup_order_by_first_occurrence:
  assumes "msg = lower (strip_at ev)" and "\<not> prefix (u ''/'') msg"
    and "g = or_empty (get_group_id ev)" and "g \<noteq> []"
    and "\<not> list_ex (contains msg) triggers"
    and "spec_hits msg g ms \<noteq> []"
  shows "order_sids (collect_first_pos msg g ms) = spec_lookup msg g ms \<and>
    on_group_message ev ms =
      Inr (Some (butlast (mention_chain (spec_lookup msg g ms)) @ [Plain (zwsp_nl @ msg)])) \<and>
    distinct (spec_lookup msg g ms) \<and>
    set (spec_lookup msg g ms) = fst ` set (spec_hits msg g ms) \<and>
    sorted (map (spec_min_index (spec_hits msg g ms)) (spec_lookup msg g ms)) \<and>
    (\<forall>k. filter (\<lambda>s. spec_min_index (spec_hits msg g ms) s = k) (spec_lookup msg g ms) =
         filter (\<lambda>s. spec_min_index (spec_hits msg g ms) s = k)
           (first_seen (map fst (spec_hits msg g ms)))) \<and>
    first_seen (map fst (spec_hits msg g ms)) =
      first_seen (map (\<lambda>r. or_empty (sid r)) (filter (\<lambda>r. spec_rec_hits msg g r \<noteq> []) ms))"
proof -
  have lookup: "spec_lookup msg g ms \<noteq> []"
    using assms(6) by (simp add: spec_lookup_Nil_iff)
  have "on_group_message ev ms =
      Inr (Some (butlast (mention_chain (spec_lookup msg g ms)) @ [Plain (zwsp_nl @ msg)]))"
    using assms lookup
    by (simp add: on_group_message_def Let_def collect_first_pos_Nil_iff order_sids_collect
        set_last_Inr mention_chain_Nil_iff)
  moreover have "distinct (spec_lookup msg g ms)"
    by (simp add: spec_lookup_def distinct_first_seen)
  moreover have "sorted (map (spec_min_index (spec_hits msg g ms)) (spec_lookup msg g ms))"
    by (simp add: spec_lookup_def)
  moreover have "\<forall>k. filter (\<lambda>s. spec_min_index (spec_hits msg g ms) s = k) (spec_lookup msg g ms) =
         filter (\<lambda>s. spec_min_index (spec_hits msg g ms) s = k)
           (first_seen (map fst (spec_hits msg g ms)))"
    by (simp add: spec_lookup_def sort_key_stable)
  ultimately show ?thesis
    using first_seen_spec_hits [of msg g ms] by (simp add: order_sids_collect set_spec_lookup)
qed

theorem lookup_order_by_first_occurrence_witness:
  "spec_lookup (u ''the dog chased the cat'') (u ''G'') [member_a, member_b] = [u ''B'', u ''A''] \<and>
   on_group_message (ev_text (u ''The dog chased the cat'')) [member_a, member_b] =
     Inr (Some [At (u ''B''), Plain nbsp, At (u ''A''),
                Plain (zwsp_nl @ u ''the dog chased the cat'')])"
proof -
  let ?ev = "ev_text (u ''The dog chased the cat'')"
  let ?msg = "u ''the dog chased the cat''"
  let ?ms = "[member_a, member_b]"
  have msg: "?msg = lower (strip_at ?ev)"
    by (simp add: ev_text_def strip_at_def string_eval)
  have h2: "\<not> prefix (u ''/'') ?msg"
    by (simp add: u_def)
  have h3: "u ''G'' = or_empty (get_group_id ?ev)"
    by (simp add: ev_text_group)
  have h5: "\<not> list_ex (contains ?msg) triggers"
    by (simp add: triggers_def u_def)
  have hits: "spec_hits ?msg (u ''G'') ?ms = [(u ''A'', 19), (u ''B'', 4)]"
    by (simp add: spec_hits_def spec_rec_hits_def py_find_def member_eval string_eval)
  have h6: "spec_hits ?msg (u ''G'') ?ms \<noteq> []"
    by (simp add: hits)
  have lookup: "spec_lookup ?msg (u ''G'') ?ms = [u ''B'', u ''A'']"
    unfolding spec_lookup_def hits by (simp add: spec_min_index_def u_def)
  from lookup_order_by_first_occurrence [OF msg h2 h3 u_G_nonempty h5 h6] lookup
  show ?thesis by simp
qed

text \<open>
  Claim C4: when the text of a message (no command, in a group) contains a trigger phrase,
  the hook mentions exactly the records of the group that have a non-empty \<open>sid\<close>, in
  the order of the store; no nickname is looked at.
\<close>

theorem broadcast_selects_group_records:
  assumes "\<not> prefix (u ''/'') (strip_at ev)"
    and "or_empty (get_group_id ev) = g" and "g \<noteq> []"
    and "list_ex (contains (strip_at ev)) triggers"
  shows "on_group_message ev ms =
    (let sids = map (\<lambda>r. or_empty (sid r))
                  (filter (\<lambda>r. group_id r = Some g \<and> or_empty (sid r) \<noteq> []) ms)
     in if sids = [] then Inr None
        else Inr (Some (butlast (mention_chain sids) @ [Plain (zwsp_nl @ lower (strip_at ev))])))"
proof -
  have msg: "\<not> prefix (u ''/'') (lower (strip_at ev))"
    using assms(1) by (rule lower_adds_no_slash)
  have trig: "list_ex (contains (lower (strip_at ev))) triggers"
    using assms(4) by (rule trigger_in_lower)
  show ?thesis
    by (simp add: on_group_message_def Let_def msg trig assms(2,3) mention_chain_Nil_iff
        set_last_Inr broadcast_sids_eq)
qed

theorem broadcast_selects_group_records_witness:
  "on_group_message (ev_text [37117, 26469, 24247])
     [member_a, member_elsewhere, member_b, member_empty_sid, member_c] =
   Inr (Some [At (u ''A''), Plain nbsp, At (u ''B''), Plain nbsp, At (u ''C''),
              Plain (zwsp_nl @ [37117, 26469, 24247])])"
proof -
  let ?ev = "ev_text [37117, 26469, 24247]"
  have plain: "strip_at ?ev = [37117, 26469, 24247]"
    by (simp add: ev_text_def strip_at_def string_eval)
  have h1: "\<not> prefix (u ''/'') (strip_at ?ev)"
    by (simp add: plain u_def)
  have h4: "list_ex (contains (strip_at ?ev)) triggers"
    by (simp add: plain triggers_def)
  from broadcast_selects_group_records [OF h1 ev_text_group u_G_nonempty h4,
      of "[member_a, member_elsewhere, member_b, member_empty_sid, member_c]"]
  show ?thesis
    by (simp add: plain member_eval u_def lower_def lower_cp_def nbsp_def)
qed

text \<open>
  Claim C5: \<^verbatim>\<open>member\<close> with a valid group, target and nickname upserts: it appends a new
  record when the member has none in the group, and otherwise appends the nickname to the
  member's record only when no entry of it equals the nickname once trimmed. A second
  upsert of the same value changes nothing, and the record then found holds the nickname
  once, unless it held it more than once before.
\<close>

theorem upsert_nickname_idempotent:
  assumes "or_empty (get_group_id ev) = g" and "g \<noteq> []"
    and "first_at_sid (get_messages ev) = Some s" and "s \<noteq> []"
    and "norm_str nick = n" and "n \<noteq> []"
  shows "fst (cmd_member ev nick ms) = upsert s g n ms \<and>
    fst (cmd_member ev nick (upsert s g n ms)) = upsert s g n ms \<and>
    (find_by_sid_group s g ms = None \<longrightarrow>
       upsert s g n ms = ms @ [\<lparr>nickname = Some [n], sid = Some s, group_id = Some g\<rparr>]) \<and>
    (\<forall>r. find_by_sid_group s g ms = Some r \<longrightarrow>
       length (upsert s g n ms) = length ms \<and>
       find_by_sid_group s g (upsert s g n ms) = Some (add_nick n r) \<and>
       get_nickname (add_nick n r) =
         (if list_all (\<lambda>x. norm_str x \<noteq> n) (get_nickname r) then get_nickname r @ [n]
          else get_nickname r)) \<and>
    (\<exists>r'. find_by_sid_group s g (upsert s g n (upsert s g n ms)) = Some r' \<and>
       length (filter (\<lambda>x. norm_str x = n) (get_nickname r')) =
         (case find_by_sid_group s g ms of
            None \<Rightarrow> 1
          | Some r \<Rightarrow> max 1 (length (filter (\<lambda>x. norm_str x = n) (get_nickname r)))))"
proof -
  have n: "norm_str n = n"
    using assms(5) norm_str_idem by blast
  have cmd: "fst (cmd_member ev nick ms') = upsert s g n ms'" for ms'
    using assms by (simp add: cmd_member_def Let_def)
  have len: "length (update_first P f xs) = length xs" for P f and xs :: "member list"
    by (induction xs) auto
  have found: "find_by_sid_group s g (upsert s g n ms) = Some (add_nick n r)"
    if "find_by_sid_group s g ms = Some r" for r
    using that by (simp add: find_upsert)
  have same_length: "length (upsert s g n ms) = length ms"
    if "find_by_sid_group s g ms = Some r" for r
    using that by (simp add: upsert_def len)
  have present: "\<forall>r. find_by_sid_group s g ms = Some r \<longrightarrow>
       length (upsert s g n ms) = length ms \<and>
       find_by_sid_group s g (upsert s g n ms) = Some (add_nick n r) \<and>
       get_nickname (add_nick n r) =
         (if list_all (\<lambda>x. norm_str x \<noteq> n) (get_nickname r) then get_nickname r @ [n]
          else get_nickname r)"
    using found same_length by (simp add: get_nickname_add_nick)
  have twice: "\<exists>r'. find_by_sid_group s g (upsert s g n (upsert s g n ms)) = Some r' \<and>
       length (filter (\<lambda>x. norm_str x = n) (get_nickname r')) =
         (case find_by_sid_group s g ms of
            None \<Rightarrow> 1
          | Some r \<Rightarrow> max 1 (length (filter (\<lambda>x. norm_str x = n) (get_nickname r))))"
  proof (cases "find_by_sid_group s g ms")
    case None
    then show ?thesis
      using n by (simp add: upsert_idem find_upsert get_nickname_def)
  next
    case (Some r)
    then show ?thesis
      using n by (simp add: upsert_idem find_upsert count_add_nick)
  qed
  have absent: "find_by_sid_group s g ms = None \<longrightarrow>
       upsert s g n ms = ms @ [\<lparr>nickname = Some [n], sid = Some s, group_id = Some g\<rparr>]"
    by (simp add: upsert_def)
  have again: "fst (cmd_member ev nick (upsert s g n ms)) = upsert s g n ms"
    using n by (simp add: cmd upsert_idem)
  from present twice absent again show ?thesis
    by (simp only: cmd simp_thms)
qed

theorem upsert_nickname_idempotent_witness:
  "cmd_member (ev_at_a (u ''/member cat'')) (u '' cat '') [] = ([member_a], Recorded (u ''cat'') (u ''A'')) \<and>
   fst (cmd_member (ev_at_a (u ''/member cat'')) (u '' cat '') [member_a]) = [member_a] \<and>
   fst (cmd_member (ev_at_a (u ''/member cat'')) (u '' cat '') [member_b]) = [member_b, member_a]"
proof -
  let ?ev = "ev_at_a (u ''/member cat'')"
  have h1: "or_empty (get_group_id ?ev) = u ''G''"
    by (simp add: ev_at_a_def or_empty_def)
  have h3: "first_at_sid (get_messages ?ev) = Some (u ''A'')"
    by (simp add: ev_at_a_def)
  have h4: "u ''A'' \<noteq> []"
    by (simp add: u_def)
  have h5: "norm_str (u '' cat '') = u ''cat''"
    by (simp add: string_eval)
  have h6: "u ''cat'' \<noteq> []"
    by (simp add: u_def)
  have first: "upsert (u ''A'') (u ''G'') (u ''cat'') [] = [member_a]"
    by (simp add: upsert_def find_by_sid_group_def member_eval)
  have other: "upsert (u ''A'') (u ''G'') (u ''cat'') [member_b] = [member_b, member_a]"
    by (simp add: upsert_def find_by_sid_group_def member_eval u_def)
  have reply: "snd (cmd_member ?ev (u '' cat '') []) = Recorded (u ''cat'') (u ''A'')"
    using h1 h3 h4 h5 h6 u_G_nonempty by (simp add: cmd_member_def Let_def)
  from upsert_nickname_idempotent [OF h1 u_G_nonempty h3 h4 h5 h6, of "[]"]
    upsert_nickname_idempotent [OF h1 u_G_nonempty h3 h4 h5 h6, of "[member_b]"]
    first other reply
  show ?thesis
    by (simp add: prod_eq_iff)
qed

text \<open>
  Claim C6: \<^verbatim>\<open>rm_nick\<close> in a group takes the nickname out of every record of the group
  and reports the number of records whose nickname list changed. It deletes no record,
  leaves every \<open>sid\<close> and \<open>group_id\<close> as it was, and leaves the records of other groups
  untouched.
\<close>

theorem remove_nickname_frame:
  assumes "or_empty (get_group_id ev) = g" and "g \<noteq> []" and "norm_str nick = n"
    and "cmd_rm_nick ev nick ms = (ms', rep)"
  shows "length ms' = length ms \<and> map sid ms' = map sid ms \<and>
    map group_id ms' = map group_id ms \<and>
    (\<forall>i<length ms. group_id (ms ! i) \<noteq> Some g \<longrightarrow> ms' ! i = ms ! i) \<and>
    (\<forall>i<length ms. group_id (ms ! i) = Some g \<longrightarrow>
       get_nickname (ms' ! i) = filter (\<lambda>x. norm_str x \<noteq> n) (get_nickname (ms ! i))) \<and>
    rep = (let touched = length (filter (\<lambda>i. nickname (ms' ! i) \<noteq> nickname (ms ! i))
                                   [0..<length ms])
           in if touched \<noteq> 0 then RemovedNick n touched else NotFound)"
proof -
  let ?f = "\<lambda>m. if nick_hit n (Some g) m then without_nick n m else m"
  from assms have ms': "ms' = map ?f ms"
    and rep: "rep = (if length (filter (nick_hit n (Some g)) ms) \<noteq> 0
                     then RemovedNick n (length (filter (nick_hit n (Some g)) ms)) else NotFound)"
    by (simp_all add: cmd_rm_nick_eq)
  have keys: "map sid ms' = map sid ms" "map group_id ms' = map group_id ms"
    by (simp_all add: ms' without_nick_def)
  have other: "\<forall>i<length ms. group_id (ms ! i) \<noteq> Some g \<longrightarrow> ms' ! i = ms ! i"
    by (simp add: ms' nick_hit_def)
  have inside: "\<forall>i<length ms. group_id (ms ! i) = Some g \<longrightarrow>
       get_nickname (ms' ! i) = filter (\<lambda>x. norm_str x \<noteq> n) (get_nickname (ms ! i))"
    by (auto simp: ms' not_hit_filter_id) (simp add: without_nick_def get_nickname_def)
  have "filter (\<lambda>i. nickname (ms' ! i) \<noteq> nickname (ms ! i)) [0..<length ms] =
        filter (\<lambda>i. nick_hit n (Some g) (ms ! i)) [0..<length ms]"
    by (rule filter_cong) (simp_all add: ms' nickname_changed_iff)
  then have "length (filter (\<lambda>i. nickname (ms' ! i) \<noteq> nickname (ms ! i)) [0..<length ms]) =
             length (filter (nick_hit n (Some g)) ms)"
    by (simp add: length_filter_index)
  with rep keys other inside show ?thesis
    by (simp add: ms' Let_def)
qed

theorem remove_nickname_frame_witness:
  "cmd_rm_nick (ev_text (u ''/rm_nick cat'')) (u ''cat'') [member_a, member_b, member_elsewhere] =
     ([mk_member [] ''A'' ''G'', member_b, member_elsewhere], RemovedNick (u ''cat'') 1)"
proof -
  let ?ev = "ev_text (u ''/rm_nick cat'')"
  let ?ms = "[member_a, member_b, member_elsewhere]"
  obtain ms' rep where res: "cmd_rm_nick ?ev (u ''cat'') ?ms = (ms', rep)"
    by (cases "cmd_rm_nick ?ev (u ''cat'') ?ms")
  have h3: "norm_str (u ''cat'') = u ''cat''"
    by (simp add: string_eval)
  note frame = remove_nickname_frame [OF ev_text_group u_G_nonempty h3 res]
  have g2: "group_id (?ms ! 2) \<noteq> Some (u ''G'')"
    by (simp add: member_eval u_def)
  have m2: "ms' ! 2 = member_elsewhere"
    using frame g2 by simp
  have "cmd_rm_nick ?ev (u ''cat'') ?ms =
     ([mk_member [] ''A'' ''G'', member_b, member_elsewhere], RemovedNick (u ''cat'') 1)"
    by (simp add: cmd_rm_nick_def Let_def ev_text_def find_all_by_nickname_def
        nick_hit_def rm_step_def member_eval string_eval)
  with res m2 show ?thesis by simp
qed

text \<open>
  Claim C7: what the hook does for a message of a group depends on the records of that
  group only: two stores with the same records of the group give the same result, and a
  store with no record of the group gives no message.
\<close>

theorem cross_group_noninterference:
  assumes "g = or_empty (get_group_id ev)"
  shows "(filter (\<lambda>r. group_id r = Some g) ms1 = filter (\<lambda>r. group_id r = Some g) ms2 \<longrightarrow>
            on_group_message ev ms1 = on_group_message ev ms2) \<and>
         (filter (\<lambda>r. group_id r = Some g) ms1 = [] \<longrightarrow> on_group_message ev ms1 = Inr None)"
proof -
  have empty: "on_group_message ev [] = Inr None"
    by (simp add: on_group_message_def Let_def collect_first_pos_def)
  show ?thesis
    using on_group_message_group [of ev ms1] on_group_message_group [of ev ms2] empty assms
    by auto
qed

theorem cross_group_noninterference_witness:
  "on_group_message (ev_text (u ''dog and cat'')) [member_elsewhere, member_a] =
   on_group_message (ev_text (u ''dog and cat'')) [member_a] \<and>
   on_group_message (ev_text (u ''dog and cat'')) [member_elsewhere] = Inr None"
proof -
  let ?ev = "ev_text (u ''dog and cat'')"
  have g: "u ''G'' = or_empty (get_group_id ?ev)"
    by (simp add: ev_text_group)
  have same: "filter (\<lambda>r. group_id r = Some (u ''G'')) [member_elsewhere, member_a] =
              filter (\<lambda>r. group_id r = Some (u ''G'')) [member_a]"
    by (simp add: member_eval u_def)
  have none: "filter (\<lambda>r. group_id r = Some (u ''G'')) [member_elsewhere] = []"
    by (simp add: member_eval u_def)
  from cross_group_noninterference [OF g, of "[member_elsewhere, member_a]" "[member_a]"]
    cross_group_noninterference [OF g, of "[member_elsewhere]" "[]"] same none
  show ?thesis by blast
qed

text \<open>
  Claim C8: a message whose stripped plain text begins with \<open>/\<close> gets no rewritten
  message, whatever the store holds; the hook returns before it reads the store.
\<close>

theorem command_prefix_never_rewritten:
  "prefix (u ''/'') (strip_at ev) \<Longrightarrow> on_group_message ev ms = Inr None"
  by (simp add: on_group_message_def Let_def lower_keeps_slash)

theorem command_prefix_never_rewritten_witness:
  "prefix (u ''/'') (strip_at (ev_text (u '' /rm_nick cat''))) \<and>
   on_group_message (ev_text (u '' /rm_nick cat'')) [member_a] = Inr None"
proof -
  have h: "prefix (u ''/'') (strip_at (ev_text (u '' /rm_nick cat'')))"
    by (simp add: ev_text_def strip_at_def string_eval)
  from h command_prefix_never_rewritten [OF h, of "[member_a]"]
  show ?thesis by simp
qed

text \<open>
  Claim C9: a stored nickname that is empty once trimmed never matches. The loop passes
  over it, so the dictionary of first positions and the result of the hook are those of
  the store without such entries, although \<^verbatim>\<open>find\<close> of the empty string is index 0.
\<close>

theorem blank_nickname_never_matches:
  "on_group_message ev (map drop_blank ms) = on_group_message ev ms \<and>
   collect_first_pos msg g (map drop_blank ms) = collect_first_pos msg g ms \<and>
   (norm_str raw = [] \<longrightarrow> scan_nick msg s fp raw = fp \<and> py_find msg (norm_str raw) = 0)"
  by (simp add: on_group_message_def Let_def collect_first_pos_def foldl_scan_rec_drop_blank
      broadcast_sids_drop_blank scan_nick_blank py_find_empty)

theorem blank_nickname_never_matches_witness:
  "norm_str (u ''  '') = [] \<and> py_find (u ''hello'') (norm_str (u ''  '')) = 0 \<and>
   map drop_blank [member_blank] = [mk_member [] ''A'' ''G''] \<and>
   on_group_message (ev_text (u ''hello'')) [member_blank] = Inr None"
proof -
  have blank: "norm_str (u ''  '') = []"
    by (simp add: string_eval)
  have dropped: "map drop_blank [member_blank] = [mk_member [] ''A'' ''G'']"
    by (simp add: drop_blank_def member_eval string_eval)
  have none: "on_group_message (ev_text (u ''hello'')) [mk_member [] ''A'' ''G''] = Inr None"
    by (simp add: hook_eval member_eval string_eval)
  from blank_nickname_never_matches [of "ev_text (u ''hello'')" "[member_blank]" "u ''hello''"
      "u ''G''" "u ''  ''" "u ''A''" "[]"] blank dropped none
  show ?thesis by simp
qed

text \<open>
  Claim C10: the matching loop passes over every record whose \<open>sid\<close> is missing or
  empty, as the broadcast branch does, so no mention of an emitted message has an empty
  \<open>sid\<close>.
\<close>

theorem mentions_have_nonempty_sid:
  "collect_first_pos msg g (filter (\<lambda>r. or_empty (sid r) \<noteq> []) ms) = collect_first_pos msg g ms \<and>
   (on_group_message ev ms = Inr (Some chain) \<longrightarrow> At q \<in> set chain \<longrightarrow> q \<noteq> [])"
proof -
  have "q \<noteq> []" if "on_group_message ev ms = Inr (Some chain)" and "At q \<in> set chain"
  proof -
    from that(1) obtain sids
      where chain: "chain = butlast (mention_chain sids) @ [Plain (zwsp_nl @ lower (strip_at ev))]"
        and sids: "sids = broadcast_sids (or_empty (get_group_id ev)) ms \<or>
                   sids = spec_lookup (lower (strip_at ev)) (or_empty (get_group_id ev)) ms"
      using on_group_message_Some by blast
    from that(2) have "q \<in> set sids"
      unfolding chain by (rule At_in_rewritten)
    with sids show ?thesis
      by (auto simp: broadcast_sids_eq set_spec_lookup spec_hits_sid_nonempty)
  qed
  then show ?thesis
    by (simp add: collect_first_pos_def foldl_scan_rec_has_sid)
qed

theorem mentions_have_nonempty_sid_witness:
  "on_group_message (ev_text (u ''cat dog'')) [member_no_sid, member_empty_sid, member_b] =
     Inr (Some [At (u ''B''), Plain (zwsp_nl @ u ''cat dog'')]) \<and> u ''B'' \<noteq> []"
proof -
  let ?ev = "ev_text (u ''cat dog'')"
  let ?ms = "[member_no_sid, member_empty_sid, member_b]"
  have res: "on_group_message ?ev ?ms = Inr (Some [At (u ''B''), Plain (zwsp_nl @ u ''cat dog'')])"
    by (simp add: hook_eval member_eval string_eval)
  have "At (u ''B'') \<in> set [At (u ''B''), Plain (zwsp_nl @ u ''cat dog'')]"
    by simp
  with mentions_have_nonempty_sid [of "u ''cat dog''" "u ''G''" ?ms ?ev
      "[At (u ''B''), Plain (zwsp_nl @ u ''cat dog'')]" "u ''B''"] res
  show ?thesis by simp
qed

end
